theory Spec2Isabelle
  imports Main
begin

section \<open>Characters and character classes\<close>

text \<open>
  A Python \<^verbatim>\<open>str\<close> is a sequence of code points. The model works with texts whose code
  points are below 256, one \<^typ>\<open>char\<close> per code point. \<open>is_space\<close> is the set that both
  the regular-expression class \<^verbatim>\<open>\s\<close> and \<^verbatim>\<open>str.strip()\<close> use in that range, and
  \<open>lower_char\<close> is the lower-casing that \<^verbatim>\<open>re.IGNORECASE\<close> compares with.
\<close>

definition is_space :: "char \<Rightarrow> bool" where
  "is_space c = (c \<in> set [CHR 0x09, CHR 0x0A, CHR 0x0B, CHR 0x0C, CHR 0x0D,
                            CHR 0x1C, CHR 0x1D, CHR 0x1E, CHR 0x1F, CHR 0x20,
                            CHR 0x85, CHR 0xA0])"

definition lower_char :: "char \<Rightarrow> char" where
  "lower_char c =
     (let n = (of_char c :: nat) in
      if (0x41 \<le> n \<and> n \<le> 0x5A) \<or> (0xC0 \<le> n \<and> n \<le> 0xDE \<and> n \<noteq> 0xD7)
      then char_of (n + 0x20) else c)"

section \<open>Regular expressions with backtracking priorities\<close>

text \<open>
  The fragment of Python's \<^verbatim>\<open>re\<close> syntax that the parser's patterns use. Every
  repetition (\<^verbatim>\<open>*\<close>, \<^verbatim>\<open>+\<close>, \<^verbatim>\<open>+?\<close>) in the source applies to a single-character atom.
\<close>

datatype citem = Ch char | Space

datatype atom = Chr char | Set "citem list" | NSet "citem list" | Dot

datatype regex =
    Eps
  | A atom
  | Seq regex regex
  | Alt regex regex
  | Opt regex
  | Star atom
  | Plus atom
  | PlusLazy atom
  | Eos

record flags =
  ignorecase :: bool
  dotall :: bool

definition no_flags :: flags where
  "no_flags = \<lparr>ignorecase = False, dotall = False\<rparr>"

definition IGNORECASE :: flags where
  "IGNORECASE = \<lparr>ignorecase = True, dotall = False\<rparr>"

definition IGNORECASE_DOTALL :: flags where
  "IGNORECASE_DOTALL = \<lparr>ignorecase = True, dotall = True\<rparr>"

fun item_ok :: "bool \<Rightarrow> citem \<Rightarrow> char \<Rightarrow> bool" where
  "item_ok ic (Ch p) c = (if ic then lower_char c = lower_char p else c = p)"
| "item_ok ic Space c = is_space c"

fun atom_ok :: "flags \<Rightarrow> atom \<Rightarrow> char \<Rightarrow> bool" where
  "atom_ok f (Chr p) c = (if ignorecase f then lower_char c = lower_char p else c = p)"
| "atom_ok f (Set items) c = list_ex (\<lambda>i. item_ok (ignorecase f) i c) items"
| "atom_ok f (NSet items) c = (\<not> list_ex (\<lambda>i. item_ok (ignorecase f) i c) items)"
| "atom_ok f Dot c = (dotall f \<or> c \<noteq> CHR 0x0A)"

text \<open>
  A matcher returns, for the text that starts at the current position, the texts that
  remain after each way of matching, in the order in which the backtracking engine tries
  them: the head of the list is the match the engine reports.
\<close>

fun star_greedy :: "(char \<Rightarrow> bool) \<Rightarrow> string \<Rightarrow> string list" where
  "star_greedy p [] = [[]]"
| "star_greedy p (c # cs) = (if p c then star_greedy p cs @ [c # cs] else [c # cs])"

fun plus_lazy :: "(char \<Rightarrow> bool) \<Rightarrow> string \<Rightarrow> string list" where
  "plus_lazy p [] = []"
| "plus_lazy p (c # cs) = (if p c then cs # plus_lazy p cs else [])"

fun rmatch :: "flags \<Rightarrow> regex \<Rightarrow> string \<Rightarrow> string list" where
  "rmatch f Eps s = [s]"
| "rmatch f (A a) s = (case s of [] \<Rightarrow> [] | c # cs \<Rightarrow> if atom_ok f a c then [cs] else [])"
| "rmatch f (Seq r1 r2) s = concat (map (rmatch f r2) (rmatch f r1 s))"
| "rmatch f (Alt r1 r2) s = rmatch f r1 s @ rmatch f r2 s"
| "rmatch f (Opt r) s = rmatch f r s @ [s]"
| "rmatch f (Star a) s = star_greedy (atom_ok f a) s"
| "rmatch f (Plus a) s =
     (case s of [] \<Rightarrow> [] | c # cs \<Rightarrow> if atom_ok f a c then star_greedy (atom_ok f a) cs else [])"
| "rmatch f (PlusLazy a) s = plus_lazy (atom_ok f a) s"
| "rmatch f Eos s = (if s = [] \<or> s = [CHR 0x0A] then [s] else [])"

text \<open>A literal string, and lists of sequenced or alternative patterns.\<close>

fun str :: "string \<Rightarrow> regex" where
  "str [] = Eps"
| "str (c # cs) = Seq (A (Chr c)) (str cs)"

fun seqs :: "regex list \<Rightarrow> regex" where
  "seqs [] = Eps"
| "seqs [r] = r"
| "seqs (r # rs) = Seq r (seqs rs)"

fun alts :: "regex list \<Rightarrow> regex" where
  "alts [] = Eps"
| "alts [r] = r"
| "alts (r # rs) = Alt r (alts rs)"

text \<open>
  \<^verbatim>\<open>re.search\<close>: the leftmost position at which the pattern matches, as the text before
  the match, the matched text and the text after it.
\<close>

fun search :: "flags \<Rightarrow> regex \<Rightarrow> string \<Rightarrow> (string \<times> string \<times> string) option" where
  "search f r s =
     (case rmatch f r s of
        x # _ \<Rightarrow> Some ([], take (length s - length x) s, x)
      | [] \<Rightarrow> (case s of
                 [] \<Rightarrow> None
               | c # cs \<Rightarrow> map_option (\<lambda>(b, m, a). (c # b, m, a)) (search f r cs)))"

text \<open>
  \<^verbatim>\<open>re.findall\<close> for a pattern without groups: the matched texts, left to right, each
  search resuming where the previous match ended. (After an empty match the scan moves on
  by one character.)
\<close>

function findall :: "flags \<Rightarrow> regex \<Rightarrow> string \<Rightarrow> string list" where
  "findall f r s =
     (case rmatch f r s of
        [] \<Rightarrow> (case s of [] \<Rightarrow> [] | c # cs \<Rightarrow> findall f r cs)
      | x # _ \<Rightarrow>
          (if length x < length s then take (length s - length x) s # findall f r x
           else [] # (case s of [] \<Rightarrow> [] | c # cs \<Rightarrow> findall f r cs)))"
  by pat_completeness auto
termination
  by (relation "measure (\<lambda>(f, r, s). length s)") auto

text \<open>
  A pattern with one capturing group, given as the part before the group, the group and
  the part after it. Each result is the text of the group and the text that remains.
\<close>

definition gmatch :: "flags \<Rightarrow> regex \<Rightarrow> regex \<Rightarrow> regex \<Rightarrow> string \<Rightarrow> (string \<times> string) list" where
  "gmatch f pre g post s =
     concat (map (\<lambda>r1. concat (map (\<lambda>r2. map (\<lambda>r3. (take (length r1 - length r2) r1, r3))
                                               (rmatch f post r2))
                                    (rmatch f g r1)))
                 (rmatch f pre s))"

fun gsearch :: "flags \<Rightarrow> regex \<Rightarrow> regex \<Rightarrow> regex \<Rightarrow> string \<Rightarrow> (string \<times> string) option" where
  "gsearch f pre g post s =
     (case gmatch f pre g post s of
        x # _ \<Rightarrow> Some x
      | [] \<Rightarrow> (case s of [] \<Rightarrow> None | c # cs \<Rightarrow> gsearch f pre g post cs))"

text \<open>\<^verbatim>\<open>re.sub(pattern, r'\1', text)\<close>: every match is replaced by the text of its group.\<close>

function gsub :: "flags \<Rightarrow> regex \<Rightarrow> regex \<Rightarrow> regex \<Rightarrow> string \<Rightarrow> string" where
  "gsub f pre g post s =
     (case gmatch f pre g post s of
        [] \<Rightarrow> (case s of [] \<Rightarrow> [] | c # cs \<Rightarrow> c # gsub f pre g post cs)
      | (grp, rest) # _ \<Rightarrow>
          (if length rest < length s then grp @ gsub f pre g post rest
           else grp @ (case s of [] \<Rightarrow> [] | c # cs \<Rightarrow> c # gsub f pre g post cs)))"
  by pat_completeness auto
termination
  by (relation "measure (\<lambda>(f, pre, g, post, s). length s)") auto

text \<open>\<^verbatim>\<open>text.split('\n')\<close> and \<^verbatim>\<open>line.strip()\<close>.\<close>

fun split_lines :: "string \<Rightarrow> string list" where
  "split_lines [] = [[]]"
| "split_lines (c # cs) =
     (if c = CHR 0x0A then [] # split_lines cs
      else (case split_lines cs of [] \<Rightarrow> [[c]] | l # ls \<Rightarrow> (c # l) # ls))"

definition strip :: "string \<Rightarrow> string" where
  "strip s = rev (dropWhile is_space (rev (dropWhile is_space s)))"

section \<open>The parser's patterns\<close>

text \<open>
  \<^verbatim>\<open>URL_PATTERN = r'https?://[^\s<>"\'\]\)]+[^\s<>"\'\]\)\.,;:!?]'\<close>
  (\<^verbatim>\<open>https?://\<close> also starts the group of both wrapper patterns below.)
\<close>

definition url_body_excluded :: "citem list" where
  "url_body_excluded =
     [Space, Ch CHR ''<'', Ch CHR ''>'', Ch (CHR 0x22), Ch (CHR 0x27), Ch CHR '']'', Ch CHR '')'']"

definition url_last_excluded :: "citem list" where
  "url_last_excluded =
     url_body_excluded @
     [Ch CHR ''.'', Ch CHR '','', Ch CHR '';'', Ch CHR '':'', Ch CHR ''!'', Ch CHR ''?'']"

definition http_scheme :: regex where
  "http_scheme = seqs [str ''http'', Opt (A (Chr CHR ''s'')), str ''://'']"

definition URL_PATTERN :: regex where
  "URL_PATTERN =
     seqs [http_scheme, Plus (NSet url_body_excluded), A (NSet url_last_excluded)]"

text \<open>
  The label patterns. \<^verbatim>\<open>\s*[:\-]?\s*\<close> ends each of them, and
  \<^verbatim>\<open>(?:ones?|urls?)\<close> is shared by three.
  \<^verbatim>\<open>
  OLD_URL_PATTERNS = [
      r'(?:old|vieja|antigua|from|de|origen)s?\s*(?:ones?|urls?)?\s*[:\-]?\s*',
      r'(?:redirigir|redirect)\s+(?:desde|from)\s*[:\-]?\s*',
  ]
  NEW_URL_PATTERNS = [
      r'(?:new|nueva|to|a|destino|hacia)\s*(?:ones?|urls?)?\s*[:\-]?\s*',
      r'(?:redirigir|redirect)\s+(?:a|to|hacia)\s*[:\-]?\s*',
  ]
  \<close>
\<close>

definition spaces :: regex where
  "spaces = Star (Set [Space])"

definition separator :: regex where
  "separator = A (Set [Ch CHR '':'', Ch CHR ''-''])"

definition ones_or_urls :: regex where
  "ones_or_urls =
     Alt (Seq (str ''one'') (Opt (A (Chr CHR ''s''))))
         (Seq (str ''url'') (Opt (A (Chr CHR ''s''))))"

definition OLD_URL_PATTERNS :: "regex list" where
  "OLD_URL_PATTERNS =
     [seqs [alts (map str [''old'', ''vieja'', ''antigua'', ''from'', ''de'', ''origen'']),
            Opt (A (Chr CHR ''s'')), spaces, Opt ones_or_urls, spaces, Opt separator, spaces],
      seqs [alts (map str [''redirigir'', ''redirect'']), Plus (Set [Space]),
            alts (map str [''desde'', ''from'']), spaces, Opt separator, spaces]]"

definition NEW_URL_PATTERNS :: "regex list" where
  "NEW_URL_PATTERNS =
     [seqs [alts (map str [''new'', ''nueva'', ''to'', ''a'', ''destino'', ''hacia'']),
            spaces, Opt ones_or_urls, spaces, Opt separator, spaces],
      seqs [alts (map str [''redirigir'', ''redirect'']), Plus (Set [Space]),
            alts (map str [''a'', ''to'', ''hacia'']), spaces, Opt separator, spaces]]"

text \<open>\<^verbatim>\<open>'|'.join(patterns)\<close>\<close>

definition old_pattern :: regex where
  "old_pattern = alts OLD_URL_PATTERNS"

definition new_pattern :: regex where
  "new_pattern = alts NEW_URL_PATTERNS"

text \<open>
  The reason pattern, split at its group. The character class of its second alternative
  holds the three code points that the source file has there: \<open>o\<close>, U+00C3 and U+00B3.
  \<^verbatim>\<open>r'(?:reason|raz[o..]n|motivo)\s*[:\-]?\s*(.+?)(?:\n|$)'\<close>
\<close>

definition reason_label :: regex where
  "reason_label =
     alts [str ''reason'',
           seqs [str ''raz'', A (Set [Ch CHR ''o'', Ch (CHR 0xC3), Ch (CHR 0xB3)]), str ''n''],
           str ''motivo'']"

definition reason_patterns :: "(regex \<times> regex \<times> regex) list" where
  "reason_patterns =
     [(seqs [reason_label, spaces, Opt separator, spaces],
       PlusLazy Dot,
       Alt (A (Chr (CHR 0x0A))) Eos)]"

text \<open>
  \<^verbatim>\<open>old_section_pattern =
    r'(?:old|vieja|antigua)s?\s*(?:ones?|urls?)?\s*[:\-](.+?)(?:new|nueva|to|a|destino)'\<close>
\<close>

definition old_section_pattern :: "regex \<times> regex \<times> regex" where
  "old_section_pattern =
     (seqs [alts (map str [''old'', ''vieja'', ''antigua'']), Opt (A (Chr CHR ''s'')),
            spaces, Opt ones_or_urls, spaces, separator],
      PlusLazy Dot,
      alts (map str [''new'', ''nueva'', ''to'', ''a'', ''destino'']))"

text \<open>
  The two wrappers of the chat markup:
  \<^verbatim>\<open>r'<(https?://[^|>]+)\|[^>]+>'\<close> and \<^verbatim>\<open>r'<(https?://[^>]+)>'\<close>.
\<close>

definition labelled_wrapper :: "regex \<times> regex \<times> regex" where
  "labelled_wrapper =
     (str ''<'',
      seqs [http_scheme, Plus (NSet [Ch CHR ''|'', Ch CHR ''>''])],
      seqs [str ''|'', Plus (NSet [Ch CHR ''>'']), str ''>''])"

definition plain_wrapper :: "regex \<times> regex \<times> regex" where
  "plain_wrapper =
     (str ''<'',
      seqs [http_scheme, Plus (NSet [Ch CHR ''>''])],
      str ''>'')"

section \<open>The parser\<close>

datatype py_error = IndexError | ValueError

record RedirectRequest =
  old_url :: string
  new_url :: string
  message_ts :: string
  channel_id :: string
  requester :: string
  reason :: "string option"

type_synonym message = "string \<rightharpoonup> string"

text \<open>\<^verbatim>\<open>message.get(key, default)\<close> and \<^verbatim>\<open>xs[i]\<close> for \<open>i \<ge> 0\<close>.\<close>

definition dict_get :: "message \<Rightarrow> string \<Rightarrow> string \<Rightarrow> string" where
  "dict_get m k d = (case m k of None \<Rightarrow> d | Some v \<Rightarrow> v)"

definition index :: "'a list \<Rightarrow> nat \<Rightarrow> py_error + 'a" where
  "index xs i = (if i < length xs then Inr (xs ! i) else Inl IndexError)"

definition clean_slack_text :: "string \<Rightarrow> string" where
  "clean_slack_text text =
     (let text = (case labelled_wrapper of (pre, g, post) \<Rightarrow> gsub no_flags pre g post text)
      in (case plain_wrapper of (pre, g, post) \<Rightarrow> gsub no_flags pre g post text))"

fun first_reason :: "(regex \<times> regex \<times> regex) list \<Rightarrow> string \<Rightarrow> string option" where
  "first_reason [] text = None"
| "first_reason ((pre, g, post) # patterns) text =
     (case gsearch IGNORECASE pre g post text of
        Some (grp, rest) \<Rightarrow> Some (strip grp)
      | None \<Rightarrow> first_reason patterns text)"

definition extract_reason :: "string \<Rightarrow> string option" where
  "extract_reason text = first_reason reason_patterns text"

subsection \<open>Strategy A: labelled lines\<close>

datatype url_type = Old | New

record scan_state =
  old_urls :: "string list"
  new_urls :: "string list"
  current_type :: "url_type option"

definition scan_line :: "scan_state \<Rightarrow> string \<Rightarrow> scan_state" where
  "scan_line st raw_line =
     (let line = strip raw_line in
      if line = [] then st
      else
        let st = (if search IGNORECASE old_pattern line \<noteq> None
                    then st\<lparr>current_type := Some Old\<rparr>
                  else if search IGNORECASE new_pattern line \<noteq> None
                    then st\<lparr>current_type := Some New\<rparr>
                  else st);
            line_urls = findall no_flags URL_PATTERN line
        in (case current_type st of
              Some Old \<Rightarrow> st\<lparr>old_urls := old_urls st @ line_urls\<rparr>
            | Some New \<Rightarrow> st\<lparr>new_urls := new_urls st @ line_urls\<rparr>
            | None \<Rightarrow> st))"

definition scan_lines :: "string \<Rightarrow> scan_state" where
  "scan_lines text =
     foldl scan_line \<lparr>old_urls = [], new_urls = [], current_type = None\<rparr> (split_lines text)"

text \<open>The pairing at the end of \<^verbatim>\<open>_parse_labeled_format\<close> ("Create redirect pairs").\<close>

fun fan_in :: "string list \<Rightarrow> string list \<Rightarrow> py_error + (string \<times> string) list" where
  "fan_in news [] = Inr []"
| "fan_in news (old # olds) =
     (case index news 0 of
        Inl e \<Rightarrow> Inl e
      | Inr new \<Rightarrow> (case fan_in news olds of Inl e \<Rightarrow> Inl e | Inr ps \<Rightarrow> Inr ((old, new) # ps)))"

fun pair_sequential :: "string list \<Rightarrow> nat \<Rightarrow> string list \<Rightarrow> py_error + (string \<times> string) list" where
  "pair_sequential news i [] = Inr []"
| "pair_sequential news i (old # olds) =
     (if i < length news then
        (case index news i of
           Inl e \<Rightarrow> Inl e
         | Inr new \<Rightarrow> (case pair_sequential news (Suc i) olds of
                        Inl e \<Rightarrow> Inl e
                      | Inr ps \<Rightarrow> Inr ((old, new) # ps)))
      else pair_sequential news (Suc i) olds)"

definition create_pairs :: "string list \<Rightarrow> string list \<Rightarrow> py_error + (string \<times> string) list" where
  "create_pairs olds news =
     (if olds \<noteq> [] \<and> news \<noteq> [] then
        if length news = 1 then fan_in news olds
        else if length olds = length news then Inr (zip olds news)
        else pair_sequential news 0 olds
      else Inr [])"

definition parse_labeled_format :: "string \<Rightarrow> py_error + (string \<times> string) list" where
  "parse_labeled_format text =
     (let urls = findall no_flags URL_PATTERN text in
      if length urls < 2 then Inr []
      else
        let has_old_label = search IGNORECASE old_pattern text;
            has_new_label = search IGNORECASE new_pattern text
        in if \<not> (has_old_label \<noteq> None \<and> has_new_label \<noteq> None) then Inr []
           else let st = scan_lines text in create_pairs (old_urls st) (new_urls st))"

subsection \<open>Strategy B: an old section followed by one new URL\<close>

definition parse_multi_old_urls :: "string \<Rightarrow> py_error + (string \<times> string) list" where
  "parse_multi_old_urls text =
     (case (case old_section_pattern of (pre, g, post) \<Rightarrow>
              gsearch IGNORECASE_DOTALL pre g post text) of
        None \<Rightarrow> Inr []
      | Some (old_section, remaining_text) \<Rightarrow>
          (let olds = findall no_flags URL_PATTERN old_section;
               news = findall no_flags URL_PATTERN remaining_text
           in if olds \<noteq> [] \<and> news \<noteq> [] then
                (case index news 0 of
                   Inl e \<Rightarrow> Inl e
                 | Inr new \<Rightarrow> Inr (map (\<lambda>old. (old, new)) olds))
              else Inr []))"

subsection \<open>Strategy C: two URLs of one domain\<close>

text \<open>
  \<^verbatim>\<open>urlparse(url).netloc\<close> belongs to Python's library, not to this program: the parser
  takes it as a parameter \<open>netloc\<close>, which returns the network location or the exception
  that \<^verbatim>\<open>urlparse\<close> raises. \<^verbatim>\<open>_same_domain\<close> catches every exception.
\<close>

definition same_domain :: "(string \<Rightarrow> py_error + string) \<Rightarrow> string \<Rightarrow> string \<Rightarrow> bool" where
  "same_domain netloc url1 url2 =
     (case netloc url1 of
        Inl e \<Rightarrow> False
      | Inr domain1 \<Rightarrow> (case netloc url2 of Inl e \<Rightarrow> False | Inr domain2 \<Rightarrow> domain1 = domain2))"

definition parse_sequential_urls ::
  "(string \<Rightarrow> py_error + string) \<Rightarrow> string \<Rightarrow> py_error + (string \<times> string) list" where
  "parse_sequential_urls netloc text =
     (let urls = findall no_flags URL_PATTERN text in
      if length urls < 2 then Inr []
      else if length urls = 2 then
        (case index urls 0 of
           Inl e \<Rightarrow> Inl e
         | Inr url0 \<Rightarrow>
             (case index urls 1 of
                Inl e \<Rightarrow> Inl e
              | Inr url1 \<Rightarrow>
                  if same_domain netloc url0 url1 then Inr [(url0, url1)] else Inr []))
      else Inr [])"

subsection \<open>The strategy cascade\<close>

text \<open>
  \<open>channel\<close> stands for \<^verbatim>\<open>Config.SLACK_CHANNEL_ID\<close>, which is read from the
  environment.
\<close>

definition extract_pairs ::
  "(string \<Rightarrow> py_error + string) \<Rightarrow> string \<Rightarrow> py_error + (string \<times> string) list" where
  "extract_pairs netloc text =
     (case parse_labeled_format text of
        Inl e \<Rightarrow> Inl e
      | Inr redirects \<Rightarrow>
          (case (if redirects = [] then parse_multi_old_urls text else Inr redirects) of
             Inl e \<Rightarrow> Inl e
           | Inr redirects \<Rightarrow>
               (if redirects = [] then parse_sequential_urls netloc text else Inr redirects)))"

text \<open>The loop that builds one \<^verbatim>\<open>RedirectRequest\<close> for every pair.\<close>

definition make_requests ::
  "string \<Rightarrow> string \<Rightarrow> string \<Rightarrow> string option \<Rightarrow> (string \<times> string) list \<Rightarrow> RedirectRequest list" where
  "make_requests ts chan user rsn redirects =
     map (\<lambda>(old, new). \<lparr>old_url = old, new_url = new, message_ts = ts,
                           channel_id = chan, requester = user, reason = rsn\<rparr>)
         redirects"

definition parse_message ::
  "(string \<Rightarrow> py_error + string) \<Rightarrow> string \<Rightarrow> message \<Rightarrow> py_error + RedirectRequest list" where
  "parse_message netloc channel message =
     (let text = dict_get message ''text'' [];
          ts = dict_get message ''ts'' [];
          chan = dict_get message ''channel'' channel;
          user = dict_get message ''user'' ''unknown'';
          text = clean_slack_text text;
          rsn = extract_reason text
      in (case extract_pairs netloc text of
            Inl e \<Rightarrow> Inl e
          | Inr redirects \<Rightarrow> Inr (make_requests ts chan user rsn redirects)))"

subsection \<open>The network location of a URL token\<close>

text \<open>
  For the examples: what \<^verbatim>\<open>urlparse(url).netloc\<close> is on a text that starts with
  \<^verbatim>\<open>http://\<close> or \<^verbatim>\<open>https://\<close> and holds no whitespace, as every match of
  \<open>URL_PATTERN\<close> does: the characters after the two slashes up to the first of
  \<^verbatim>\<open>/ ? #\<close>; a network location with only one of the two square brackets raises
  \<^verbatim>\<open>ValueError\<close>.
\<close>

definition token_netloc :: "string \<Rightarrow> py_error + string" where
  "token_netloc url =
     (let rest = drop 1 (dropWhile (\<lambda>c. c \<noteq> CHR '':'') url);
          loc = (if take 2 rest = ''//''
                 then takeWhile (\<lambda>c. c \<notin> set ''/?#'') (drop 2 rest) else [])
      in if (CHR ''['' \<in> set loc) \<noteq> (CHR '']'' \<in> set loc) then Inl ValueError else Inr loc)"

text \<open>\<^verbatim>\<open>'\n'.join(lines)\<close>, to write the texts of the examples.\<close>

fun join_lines :: "string list \<Rightarrow> string" where
  "join_lines [] = []"
| "join_lines [l] = l"
| "join_lines (l # ls) = l @ CHR 0x0A # join_lines ls"

section \<open>The URL-syntax predicate\<close>

text \<open>
  What a match of \<open>URL_PATTERN\<close> looks like: \<^verbatim>\<open>http://\<close> or \<^verbatim>\<open>https://\<close>, then at
  least two characters none of which is whitespace or one of \<^verbatim>\<open>< > " ' ] )\<close>, the last of
  them not one of \<^verbatim>\<open>. , ; : ! ?\<close>.
\<close>

definition url_char :: "char \<Rightarrow> bool" where
  "url_char c =
     (\<not> is_space c \<and> c \<notin> set [CHR ''<'', CHR ''>'', CHR 0x22, CHR 0x27, CHR '']'', CHR '')''])"

definition url_syntax :: "string \<Rightarrow> bool" where
  "url_syntax u =
     list_ex (\<lambda>scheme. take (length scheme) u = scheme \<and>
                (let rest = drop (length scheme) u
                 in 2 \<le> length rest \<and> list_all url_char rest \<and> last rest \<notin> set ''.,;:!?''))
             [''http://'', ''https://'']"

section \<open>Texts made of plain stretches and wrappers\<close>

text \<open>
  A text in the chat markup, cut into stretches without \<^verbatim>\<open><\<close> and wrappers
  \<^verbatim>\<open><url>\<close> or \<^verbatim>\<open><url|label>\<close>. In a well-formed wrapper the URL starts with
  \<^verbatim>\<open>http://\<close> or \<^verbatim>\<open>https://\<close>, goes on with at least one character, and holds none of
  \<^verbatim>\<open>< > |\<close>; the label is not empty and holds no \<^verbatim>\<open>>\<close>.
\<close>

datatype segment = Plain string | Link string "string option"

fun render :: "segment \<Rightarrow> string" where
  "render (Plain s) = s"
| "render (Link url None) = ''<'' @ url @ ''>''"
| "render (Link url (Some label)) = ''<'' @ url @ ''|'' @ label @ ''>''"

fun bare :: "segment \<Rightarrow> string" where
  "bare (Plain s) = s"
| "bare (Link url label) = url"

definition link_url :: "string \<Rightarrow> bool" where
  "link_url url =
     list_ex (\<lambda>scheme. take (length scheme) url = scheme \<and>
                (let rest = drop (length scheme) url
                 in rest \<noteq> [] \<and> list_all (\<lambda>c. c \<notin> set ''<>|'') rest))
             [''http://'', ''https://'']"

fun well_formed :: "segment \<Rightarrow> bool" where
  "well_formed (Plain s) = (CHR ''<'' \<notin> set s)"
| "well_formed (Link url None) = link_url url"
| "well_formed (Link url (Some label)) = (link_url url \<and> label \<noteq> [] \<and> CHR ''>'' \<notin> set label)"

section \<open>The matcher with continuations\<close>

text \<open>
  The same matcher, written as the backtracking engine runs: each pattern gets the rest of
  the work as a continuation and gives up an alternative only when the continuation fails
  on it. It computes the first success without listing the others, which is what the
  examples below are evaluated with.
\<close>

fun first_some :: "('a \<Rightarrow> 'b option) \<Rightarrow> 'a list \<Rightarrow> 'b option" where
  "first_some k [] = None"
| "first_some k (x # xs) = (case k x of Some y \<Rightarrow> Some y | None \<Rightarrow> first_some k xs)"

fun star_greedy_k :: "(char \<Rightarrow> bool) \<Rightarrow> (string \<Rightarrow> 'a option) \<Rightarrow> string \<Rightarrow> 'a option" where
  "star_greedy_k p k [] = k []"
| "star_greedy_k p k (c # cs) =
     (if p c then (case star_greedy_k p k cs of Some y \<Rightarrow> Some y | None \<Rightarrow> k (c # cs))
      else k (c # cs))"

fun plus_lazy_k :: "(char \<Rightarrow> bool) \<Rightarrow> (string \<Rightarrow> 'a option) \<Rightarrow> string \<Rightarrow> 'a option" where
  "plus_lazy_k p k [] = None"
| "plus_lazy_k p k (c # cs) =
     (if p c then (case k cs of Some y \<Rightarrow> Some y | None \<Rightarrow> plus_lazy_k p k cs) else None)"

fun rmatch_k :: "flags \<Rightarrow> regex \<Rightarrow> (string \<Rightarrow> 'a option) \<Rightarrow> string \<Rightarrow> 'a option" where
  "rmatch_k f Eps k s = k s"
| "rmatch_k f (A a) k s = (case s of [] \<Rightarrow> None | c # cs \<Rightarrow> if atom_ok f a c then k cs else None)"
| "rmatch_k f (Seq r1 r2) k s = rmatch_k f r1 (\<lambda>s'. rmatch_k f r2 k s') s"
| "rmatch_k f (Alt r1 r2) k s =
     (case rmatch_k f r1 k s of Some y \<Rightarrow> Some y | None \<Rightarrow> rmatch_k f r2 k s)"
| "rmatch_k f (Opt r) k s = (case rmatch_k f r k s of Some y \<Rightarrow> Some y | None \<Rightarrow> k s)"
| "rmatch_k f (Star a) k s = star_greedy_k (atom_ok f a) k s"
| "rmatch_k f (Plus a) k s =
     (case s of [] \<Rightarrow> None
      | c # cs \<Rightarrow> if atom_ok f a c then star_greedy_k (atom_ok f a) k cs else None)"
| "rmatch_k f (PlusLazy a) k s = plus_lazy_k (atom_ok f a) k s"
| "rmatch_k f Eos k s = (if s = [] \<or> s = [CHR 0x0A] then k s else None)"

definition gmatch_k ::
  "flags \<Rightarrow> regex \<Rightarrow> regex \<Rightarrow> regex \<Rightarrow> string \<Rightarrow> (string \<times> string) option" where
  "gmatch_k f pre g post s =
     rmatch_k f pre
       (\<lambda>r1. rmatch_k f g
               (\<lambda>r2. rmatch_k f post (\<lambda>r3. Some (take (length r1 - length r2) r1, r3)) r2) r1) s"

section \<open>A message of the repository's tests\<close>

text \<open>
  The text of \<^verbatim>\<open>test_parse_multiple_old_urls\<close> in \<^verbatim>\<open>tests/test_parser.py\<close>, which
  asserts that \<^verbatim>\<open>parse_message\<close> returns four requests for it, all with the URL of the
  \<^verbatim>\<open>New:\<close> line as \<^verbatim>\<open>new_url\<close>.
\<close>

definition multiple_old_urls_text :: string where
  "multiple_old_urls_text = join_lines
     [''Hi, could I get the following urls redirected please?'',
      ''Old ones: https://marseillesecrete.com/cezanne-kandinsky-la-nouvelle-expo-immersive-a-voir-aux-carrieres-de-lumieres-en-2021/'',
      ''https://marseillesecrete.com/exposition-carrieres-des-lumieres/'',
      ''https://marseillesecrete.com/dali-et-gaudi-debarquent-aux-carrieres-de-lumieres-pour-une-experience-immersive-inedite/'',
      ''https://marseillesecrete.com/provence-le-prochain-grand-defile-chanel-aura-lieu-aux-carrieres-de-lumieres/'',
      ''New: https://marseillesecrete.com/carrieres-des-lumieres-expositions-picasso-frida-kahlo/'',
      ''Reason: old articles for past exhibitions, updated info, GD potential'']"

section \<open>Lemmas: evaluating examples\<close>

text \<open>
  Lower-casing on the bits of a character, and the matcher with continuations in place of
  the lists of all matches: both only change how a closed term is computed.
\<close>

lemma lower_char_Char:
  "lower_char (Char b0 b1 b2 b3 b4 b5 b6 b7) =
     (if b6 \<and> \<not> b5 \<and>
         ((\<not> b7 \<and> (b0 \<or> b1 \<or> b2 \<or> b3 \<or> b4) \<and> \<not> (b4 \<and> b3 \<and> (b2 \<or> (b1 \<and> b0)))) \<or>
          (b7 \<and> \<not> (b4 \<and> b2 \<and> b1 \<and> b0)))
      then Char b0 b1 b2 b3 b4 True b6 b7 else Char b0 b1 b2 b3 b4 b5 b6 b7)"
  by (cases b0; cases b1; cases b2; cases b3; cases b4; cases b5; cases b6; cases b7;
      simp add: lower_char_def char_of_eq_iff)

declare lower_char_Char [code]

declare str.simps [simp del]

declare findall.simps [simp del] gsub.simps [simp del] search.simps [simp del] gsearch.simps [simp del]

lemma first_some_append:
  "first_some k (xs @ ys) = (case first_some k xs of Some y \<Rightarrow> Some y | None \<Rightarrow> first_some k ys)"
  by (induction xs) (simp_all split: option.splits)

lemma first_some_concat_map:
  "first_some k (concat (map g xs)) = first_some (\<lambda>x. first_some k (g x)) xs"
  by (induction xs) (simp_all add: first_some_append split: option.splits)

lemma first_some_map: "first_some k (map g xs) = first_some (\<lambda>x. k (g x)) xs"
  by (induction xs) (simp_all split: option.splits)

lemma first_some_Some: "first_some Some xs = (case xs of [] \<Rightarrow> None | x # _ \<Rightarrow> Some x)"
  by (cases xs) simp_all

lemma star_greedy_k_eq: "star_greedy_k p k s = first_some k (star_greedy p s)"
  by (induction s) (simp_all add: first_some_append split: option.splits)

lemma plus_lazy_k_eq: "plus_lazy_k p k s = first_some k (plus_lazy p s)"
  by (induction s) (simp_all split: option.splits)

lemma rmatch_k_eq: "rmatch_k f r k s = first_some k (rmatch f r s)"
proof (induction r arbitrary: k s)
  case (Seq r1 r2)
  then show ?case by (simp add: first_some_concat_map)
next
  case (Alt r1 r2)
  then show ?case by (simp add: first_some_append split: option.splits)
next
  case (Opt r)
  then show ?case by (simp add: first_some_append split: option.splits)
qed (simp_all add: star_greedy_k_eq plus_lazy_k_eq split: list.splits option.splits)

lemma gmatch_k_eq:
  "gmatch_k f pre g post s = (case gmatch f pre g post s of [] \<Rightarrow> None | x # _ \<Rightarrow> Some x)"
  by (simp add: gmatch_k_def gmatch_def rmatch_k_eq first_some_concat_map first_some_map
      flip: first_some_Some)

lemma search_code [code]:
  "search f r s =
     (case rmatch_k f r Some s of
        Some x \<Rightarrow> Some ([], take (length s - length x) s, x)
      | None \<Rightarrow> (case s of
                  [] \<Rightarrow> None
                | c # cs \<Rightarrow> map_option (\<lambda>(b, m, a). (c # b, m, a)) (search f r cs)))"
  by (subst search.simps) (simp add: rmatch_k_eq first_some_Some split: list.splits)

lemma findall_code [code]:
  "findall f r s =
     (case rmatch_k f r Some s of
        None \<Rightarrow> (case s of [] \<Rightarrow> [] | c # cs \<Rightarrow> findall f r cs)
      | Some x \<Rightarrow>
          (if length x < length s then take (length s - length x) s # findall f r x
           else [] # (case s of [] \<Rightarrow> [] | c # cs \<Rightarrow> findall f r cs)))"
  by (subst findall.simps) (simp add: rmatch_k_eq first_some_Some split: list.splits)

lemma gsearch_code [code]:
  "gsearch f pre g post s =
     (case gmatch_k f pre g post s of
        Some x \<Rightarrow> Some x
      | None \<Rightarrow> (case s of [] \<Rightarrow> None | c # cs \<Rightarrow> gsearch f pre g post cs))"
  by (subst gsearch.simps) (simp add: gmatch_k_eq split: list.splits)

lemma gsub_code [code]:
  "gsub f pre g post s =
     (case gmatch_k f pre g post s of
        None \<Rightarrow> (case s of [] \<Rightarrow> [] | c # cs \<Rightarrow> c # gsub f pre g post cs)
      | Some (grp, rest) \<Rightarrow>
          (if length rest < length s then grp @ gsub f pre g post rest
           else grp @ (case s of [] \<Rightarrow> [] | c # cs \<Rightarrow> c # gsub f pre g post cs)))"
  by (subst gsub.simps) (simp add: gmatch_k_eq split: list.splits)

section \<open>Lemmas: what a match consumes\<close>

lemma star_greedy_suffix:
  "x \<in> set (star_greedy p s) \<Longrightarrow> \<exists>q. s = q @ x \<and> list_all p q"
proof (induction s)
  case Nil
  then show ?case by simp
next
  case (Cons c cs)
  show ?case
  proof (cases "x = c # cs")
    case True
    then show ?thesis by simp
  next
    case False
    with Cons.prems have pc: "p c" and "x \<in> set (star_greedy p cs)"
      by (auto split: if_splits)
    with Cons.IH obtain q where "cs = q @ x" "list_all p q" by blast
    with pc have "c # cs = (c # q) @ x \<and> list_all p (c # q)" by simp
    then show ?thesis by blast
  qed
qed

lemma plus_lazy_suffix:
  "x \<in> set (plus_lazy p s) \<Longrightarrow> \<exists>q. s = q @ x \<and> q \<noteq> [] \<and> list_all p q"
proof (induction s)
  case Nil
  then show ?case by simp
next
  case (Cons c cs)
  then have pc: "p c" and disj: "x = cs \<or> x \<in> set (plus_lazy p cs)"
    by (auto split: if_splits)
  from disj show ?case
  proof
    assume "x = cs"
    with pc have "c # cs = [c] @ x \<and> [c] \<noteq> [] \<and> list_all p [c]" by simp
    then show ?thesis by blast
  next
    assume "x \<in> set (plus_lazy p cs)"
    with Cons.IH obtain q where "cs = q @ x" "list_all p q" by blast
    with pc have "c # cs = (c # q) @ x \<and> c # q \<noteq> [] \<and> list_all p (c # q)" by simp
    then show ?thesis by blast
  qed
qed

lemma rmatch_suffix: "x \<in> set (rmatch f r s) \<Longrightarrow> \<exists>p. s = p @ x"
proof (induction r arbitrary: s x)
  case (A a)
  then show ?case by (auto split: list.splits if_splits)
next
  case (Seq r1 r2)
  then obtain y where y: "y \<in> set (rmatch f r1 s)" and x: "x \<in> set (rmatch f r2 y)" by auto
  from Seq.IH(1)[OF y] Seq.IH(2)[OF x] show ?case by auto
next
  case (Star a)
  then show ?case using star_greedy_suffix by fastforce
next
  case (Plus a)
  then show ?case
    by (auto split: list.splits if_splits dest!: star_greedy_suffix intro: append_Cons[symmetric])
next
  case (PlusLazy a)
  then show ?case using plus_lazy_suffix by fastforce
qed (auto split: if_splits)

lemma rmatch_length: "x \<in> set (rmatch f r s) \<Longrightarrow> length x \<le> length s"
  using rmatch_suffix by fastforce

lemma rmatch_str:
  "x \<in> set (rmatch no_flags (str w) s) \<longleftrightarrow> s = w @ x"
  by (induction w arbitrary: s) (auto simp: str.simps no_flags_def split: list.splits)

section \<open>Lemmas: URL tokens\<close>

lemma rmatch_Seq_iff:
  "x \<in> set (rmatch f (Seq r1 r2) s) \<longleftrightarrow> (\<exists>y \<in> set (rmatch f r1 s). x \<in> set (rmatch f r2 y))"
  by auto

lemma rmatch_Plus:
  "x \<in> set (rmatch f (Plus a) s) \<Longrightarrow> \<exists>q. s = q @ x \<and> q \<noteq> [] \<and> list_all (atom_ok f a) q"
proof (cases s)
  case Nil
  then show "x \<in> set (rmatch f (Plus a) s) \<Longrightarrow> ?thesis" by simp
next
  case (Cons c cs)
  assume "x \<in> set (rmatch f (Plus a) s)"
  with Cons have c: "atom_ok f a c" and "x \<in> set (star_greedy (atom_ok f a) cs)"
    by (auto split: if_splits)
  then obtain q where "cs = q @ x" "list_all (atom_ok f a) q"
    using star_greedy_suffix by blast
  with Cons c have "s = (c # q) @ x \<and> c # q \<noteq> [] \<and> list_all (atom_ok f a) (c # q)" by simp
  then show ?thesis by blast
qed

lemma body_ok: "atom_ok no_flags (NSet url_body_excluded) = url_char"
  by (rule ext) (simp add: no_flags_def url_body_excluded_def url_char_def)

lemma last_ok:
  "atom_ok no_flags (NSet url_last_excluded) c = (url_char c \<and> c \<notin> set ''.,;:!?'')"
  by (auto simp add: no_flags_def url_body_excluded_def url_last_excluded_def url_char_def)

lemma url_syntaxI:
  assumes "scheme = ''http://'' \<or> scheme = ''https://''"
    and "list_all url_char q" and "q \<noteq> []" and "url_char d" and "d \<notin> set ''.,;:!?''"
  shows "url_syntax (scheme @ q @ [d])"
proof -
  from assms(3) have "2 \<le> length (q @ [d])" by (cases q) auto
  with assms show ?thesis
    unfolding url_syntax_def by (auto simp: Let_def)
qed

lemma rmatch_http_scheme:
  "x \<in> set (rmatch no_flags http_scheme s) \<longleftrightarrow> s = ''http://'' @ x \<or> s = ''https://'' @ x"
proof -
  have "x \<in> set (rmatch no_flags http_scheme s) \<longleftrightarrow>
        (\<exists>s1 s2. s = ''http'' @ s1 \<and> s2 \<in> set (rmatch no_flags (Opt (A (Chr CHR ''s''))) s1) \<and>
                 s2 = ''://'' @ x)"
    unfolding http_scheme_def seqs.simps rmatch_Seq_iff Bex_def rmatch_str by blast
  also have "\<dots> \<longleftrightarrow> s = ''http://'' @ x \<or> s = ''https://'' @ x"
    by (auto simp: str.simps no_flags_def split: list.splits if_splits)
  finally show ?thesis .
qed

lemma rmatch_url:
  assumes "x \<in> set (rmatch no_flags URL_PATTERN s)"
  shows "\<exists>u. s = u @ x \<and> url_syntax u"
proof -
  from assms obtain s3 s4 where
    1: "s = ''http://'' @ s3 \<or> s = ''https://'' @ s3"
    and 4: "s4 \<in> set (rmatch no_flags (Plus (NSet url_body_excluded)) s3)"
    and 5: "x \<in> set (rmatch no_flags (A (NSet url_last_excluded)) s4)"
    unfolding URL_PATTERN_def seqs.simps rmatch_Seq_iff Bex_def rmatch_http_scheme by blast
  from 4 obtain q where q: "s3 = q @ s4" "q \<noteq> []" "list_all url_char q"
    using rmatch_Plus body_ok by metis
  from 5 obtain d where d: "s4 = d # x" "url_char d" "d \<notin> set ''.,;:!?''"
    using last_ok by (auto split: list.splits if_splits)
  from 1 show ?thesis
  proof
    assume "s = ''http://'' @ s3"
    with q d have "s = (''http://'' @ q @ [d]) @ x" by simp
    moreover have "url_syntax (''http://'' @ q @ [d])" using q d by (intro url_syntaxI) auto
    ultimately show ?thesis by blast
  next
    assume "s = ''https://'' @ s3"
    with q d have "s = (''https://'' @ q @ [d]) @ x" by simp
    moreover have "url_syntax (''https://'' @ q @ [d])" using q d by (intro url_syntaxI) auto
    ultimately show ?thesis by blast
  qed
qed

lemma findall_url_syntax:
  "u \<in> set (findall no_flags URL_PATTERN s) \<Longrightarrow> url_syntax u"
proof (induction no_flags URL_PATTERN s rule: findall.induct)
  case (1 s)
  show ?case
  proof (cases "rmatch no_flags URL_PATTERN s")
    case Nil
    with "1.prems" obtain c cs where "s = c # cs" "u \<in> set (findall no_flags URL_PATTERN cs)"
      by (subst (asm) findall.simps) (auto split: list.splits)
    with Nil "1.hyps"(1) show ?thesis by blast
  next
    case (Cons x xs)
    then have "x \<in> set (rmatch no_flags URL_PATTERN s)" by simp
    then obtain p where p: "s = p @ x" "url_syntax p" using rmatch_url by blast
    then have "p \<noteq> []" by (auto simp: url_syntax_def)
    with p have len: "length x < length s" and tk: "take (length s - length x) s = p" by auto
    from "1.prems" Cons len tk have "u = p \<or> u \<in> set (findall no_flags URL_PATTERN x)"
      by (subst (asm) findall.simps) auto
    then show ?thesis using p "1.hyps"(2)[OF Cons len] by blast
  qed
qed

section \<open>Lemmas: pairing\<close>

lemma fan_in_eq: "news \<noteq> [] \<Longrightarrow> fan_in news olds = Inr (map (\<lambda>old. (old, news ! 0)) olds)"
  by (induction olds) (simp_all add: index_def)

lemma pair_sequential_eq: "pair_sequential news i olds = Inr (zip olds (drop i news))"
proof (induction olds arbitrary: i)
  case Nil
  then show ?case by simp
next
  case (Cons old olds)
  show ?case
  proof (cases "i < length news")
    case True
    then have "drop i news = news ! i # drop (Suc i) news"
      by (simp add: Cons_nth_drop_Suc)
    with True Cons.IH [of "Suc i"] show ?thesis by (simp add: index_def)
  next
    case False
    with Cons.IH [of "Suc i"] show ?thesis by simp
  qed
qed

lemma create_pairs_eq:
  "create_pairs olds news =
     Inr (if olds = [] \<or> news = [] then []
          else if length news = 1 then map (\<lambda>old. (old, news ! 0)) olds
          else zip olds news)"
  by (simp add: create_pairs_def fan_in_eq pair_sequential_eq)

lemma create_pairs_members:
  assumes "create_pairs olds news = Inr ps" and "(a, b) \<in> set ps"
  shows "a \<in> set olds \<and> b \<in> set news"
proof -
  from assms have "(a, b) \<in> set (map (\<lambda>old. (old, news ! 0)) olds) \<and> news \<noteq> [] \<or>
                   (a, b) \<in> set (zip olds news)"
    by (auto simp: create_pairs_eq split: if_splits)
  then show ?thesis
    by (auto dest: set_zip_leftD set_zip_rightD)
qed

lemma zip_take_left: "zip (take (length ys) xs) ys = zip xs ys"
proof (induction xs arbitrary: ys)
  case Nil
  then show ?case by simp
next
  case (Cons x xs)
  then show ?case by (cases ys) simp_all
qed

section \<open>Lemmas: the three strategies\<close>

lemma scan_line_urls:
  assumes "list_all url_syntax (old_urls st)" and "list_all url_syntax (new_urls st)"
  shows "list_all url_syntax (old_urls (scan_line st l)) \<and>
         list_all url_syntax (new_urls (scan_line st l))"
proof -
  have "list_all url_syntax (findall no_flags URL_PATTERN (strip l))"
    by (simp add: list_all_iff findall_url_syntax)
  with assms show ?thesis
    by (auto simp: scan_line_def Let_def split: option.splits url_type.splits)
qed

lemma foldl_scan_line_urls:
  "list_all url_syntax (old_urls st) \<Longrightarrow> list_all url_syntax (new_urls st) \<Longrightarrow>
   list_all url_syntax (old_urls (foldl scan_line st ls)) \<and>
   list_all url_syntax (new_urls (foldl scan_line st ls))"
proof (induction ls arbitrary: st)
  case Nil
  then show ?case by simp
next
  case (Cons l ls)
  from scan_line_urls [OF Cons.prems, of l] Cons.IH [of "scan_line st l"]
  show ?case by simp
qed

lemma scan_lines_urls:
  "list_all url_syntax (old_urls (scan_lines text)) \<and>
   list_all url_syntax (new_urls (scan_lines text))"
  unfolding scan_lines_def by (rule foldl_scan_line_urls) simp_all

lemma parse_labeled_format_total: "\<exists>ps. parse_labeled_format text = Inr ps"
  by (simp add: parse_labeled_format_def Let_def create_pairs_eq)

lemma parse_labeled_format_urls:
  assumes "parse_labeled_format text = Inr ps" and "(a, b) \<in> set ps"
  shows "url_syntax a \<and> url_syntax b"
proof -
  from assms have
    "create_pairs (old_urls (scan_lines text)) (new_urls (scan_lines text)) = Inr ps"
    by (auto simp: parse_labeled_format_def Let_def split: if_splits)
  from create_pairs_members [OF this assms(2)] scan_lines_urls [of "text"]
  show ?thesis by (simp add: list_all_iff)
qed

lemma index_Inr: "i < length xs \<Longrightarrow> index xs i = Inr (xs ! i)"
  by (simp add: index_def)

lemma parse_multi_old_urls_total: "\<exists>ps. parse_multi_old_urls text = Inr ps"
  by (auto simp: parse_multi_old_urls_def Let_def index_Inr split: option.splits prod.splits)

lemma parse_multi_old_urls_urls:
  assumes "parse_multi_old_urls text = Inr ps" and "(a, b) \<in> set ps"
  shows "url_syntax a \<and> url_syntax b"
proof -
  from assms obtain sec rem where
    a: "a \<in> set (findall no_flags URL_PATTERN sec)" and
    ne: "findall no_flags URL_PATTERN rem \<noteq> []" and
    b: "b = findall no_flags URL_PATTERN rem ! 0"
    by (auto simp: parse_multi_old_urls_def Let_def index_Inr
        split: option.splits prod.splits if_splits)
  from ne b have "b \<in> set (findall no_flags URL_PATTERN rem)" by simp
  with a show ?thesis by (simp add: findall_url_syntax)
qed

lemma parse_sequential_urls_total: "\<exists>ps. parse_sequential_urls netloc text = Inr ps"
  by (simp add: parse_sequential_urls_def Let_def index_Inr)

lemma parse_sequential_urls_urls:
  assumes "parse_sequential_urls netloc text = Inr ps" and "(a, b) \<in> set ps"
  shows "url_syntax a \<and> url_syntax b"
proof -
  let ?urls = "findall no_flags URL_PATTERN text"
  from assms have len: "length ?urls = 2" and ab: "a = ?urls ! 0" "b = ?urls ! 1"
    by (auto simp: parse_sequential_urls_def Let_def index_Inr split: if_splits)
  then have "a \<in> set ?urls" "b \<in> set ?urls" by simp_all
  then show ?thesis by (simp add: findall_url_syntax)
qed

lemma extract_pairs_total: "\<exists>ps. extract_pairs netloc text = Inr ps"
proof -
  obtain a where a: "parse_labeled_format text = Inr a"
    using parse_labeled_format_total by blast
  obtain b where b: "parse_multi_old_urls text = Inr b"
    using parse_multi_old_urls_total by blast
  obtain c where c: "parse_sequential_urls netloc text = Inr c"
    using parse_sequential_urls_total by blast
  from a b c show ?thesis by (simp add: extract_pairs_def)
qed

lemma extract_pairs_cases:
  assumes "extract_pairs netloc text = Inr ps"
  shows "parse_labeled_format text = Inr ps \<or> parse_multi_old_urls text = Inr ps \<or>
         parse_sequential_urls netloc text = Inr ps"
  using assms by (auto simp: extract_pairs_def split: sum.splits if_splits)

lemma extract_pairs_urls:
  assumes "extract_pairs netloc text = Inr ps" and "(a, b) \<in> set ps"
  shows "url_syntax a \<and> url_syntax b"
  using extract_pairs_cases [OF assms(1)] assms(2)
    parse_labeled_format_urls parse_multi_old_urls_urls parse_sequential_urls_urls
  by blast

section \<open>Lemmas: the first match of a wrapper\<close>

lemma rmatch_str_prefix: "rmatch no_flags (str w) (w @ s) = [s]"
  by (induction w) (simp_all add: str.simps no_flags_def)

lemma rmatch_str_mismatch: "c \<noteq> d \<Longrightarrow> rmatch no_flags (str (d # w)) (c # s) = []"
  by (simp add: str.simps no_flags_def)

lemma rmatch_str_Nil: "rmatch no_flags (str (d # w)) [] = []"
  by (simp add: str.simps)

lemma rmatch_http_scheme_http: "rmatch no_flags http_scheme (''http://'' @ s) = [s]"
  by (simp add: http_scheme_def str.simps no_flags_def)

lemma rmatch_http_scheme_https: "rmatch no_flags http_scheme (''https://'' @ s) = [s]"
  by (simp add: http_scheme_def str.simps no_flags_def)

lemma star_greedy_head:
  assumes "list_all p q" and "t = [] \<or> \<not> p (hd t)"
  shows "\<exists>rest. star_greedy p (q @ t) = t # rest"
  using assms
proof (induction q)
  case Nil
  then show ?case by (cases t) auto
next
  case (Cons a q)
  then obtain rest where "star_greedy p (q @ t) = t # rest" by auto
  with Cons.prems show ?case by simp
qed

lemma rmatch_Plus_head:
  assumes "q \<noteq> []" and "list_all (atom_ok f a) q" and "t = [] \<or> \<not> atom_ok f a (hd t)"
  shows "\<exists>rest. rmatch f (Plus a) (q @ t) = t # rest"
proof -
  from assms(1) obtain c q' where q: "q = c # q'" by (cases q) auto
  with assms(2) have "atom_ok f a c" "list_all (atom_ok f a) q'" by simp_all
  with star_greedy_head [OF this(2) assms(3)] q show ?thesis by auto
qed

lemma rmatch_Seq_head:
  assumes "rmatch f r1 s = y # ys" and "rmatch f r2 y = x # xs"
  shows "\<exists>rest. rmatch f (Seq r1 r2) s = x # rest"
  using assms by simp

lemma gsub_Nil: "gsub no_flags (str ''<'') g post [] = []"
  by (subst gsub.simps) (simp add: gmatch_def rmatch_str_Nil)

lemma gsub_skip:
  "c \<noteq> CHR ''<'' \<Longrightarrow>
   gsub no_flags (str ''<'') g post (c # s) = c # gsub no_flags (str ''<'') g post s"
  by (subst gsub.simps) (simp add: gmatch_def rmatch_str_mismatch)

lemma gsub_plain:
  "CHR ''<'' \<notin> set p \<Longrightarrow>
   gsub no_flags (str ''<'') g post (p @ s) = p @ gsub no_flags (str ''<'') g post s"
proof (induction p)
  case Nil
  then show ?case by simp
next
  case (Cons c p)
  then have "c \<noteq> CHR ''<''" and "CHR ''<'' \<notin> set p" by auto
  with Cons.IH gsub_skip [of c g post "p @ s"] show ?case by simp
qed

lemma gsub_no_wrapper:
  "CHR ''<'' \<notin> set p \<Longrightarrow> gsub no_flags (str ''<'') g post p = p"
  using gsub_plain [of p g post "[]"] by (simp add: gsub_Nil)

lemma gsub_match:
  assumes "gmatch f pre g post s = (grp, rest) # xs" and "length rest < length s"
  shows "gsub f pre g post s = grp @ gsub f pre g post rest"
  using assms by (subst gsub.simps) simp

lemma gsub_no_match:
  assumes "gmatch f pre g post (c # s) = []"
  shows "gsub f pre g post (c # s) = c # gsub f pre g post s"
  using assms by (subst gsub.simps) simp

lemma gmatch_head:
  assumes "rmatch f pre s = [r1]" and "rmatch f g r1 = r2 # ys" and "rmatch f post r2 = r3 # zs"
  shows "\<exists>rest. gmatch f pre g post s = (take (length r1 - length r2) r1, r3) # rest"
  using assms by (simp add: gmatch_def)

lemma link_urlD:
  assumes "link_url url"
  obtains scheme body where "url = scheme @ body"
    and "scheme = ''http://'' \<or> scheme = ''https://''"
    and "body \<noteq> []" and "list_all (\<lambda>c. c \<notin> set ''<>|'') body"
proof -
  define P where "P = (\<lambda>scheme. take (length scheme) url = scheme \<and>
      drop (length scheme) url \<noteq> [] \<and>
      list_all (\<lambda>c. c \<notin> set ''<>|'') (drop (length scheme) url))"
  from assms have "list_ex P [''http://'', ''https://'']"
    unfolding link_url_def P_def Let_def .
  then have "P ''http://'' \<or> P ''https://''" by simp
  then obtain scheme where s: "scheme = ''http://'' \<or> scheme = ''https://''" "P scheme"
    by blast
  from s(2) have "url = scheme @ drop (length scheme) url"
    unfolding P_def using append_take_drop_id [of "length scheme" url] by metis
  with s that show ?thesis unfolding P_def by blast
qed

lemma link_url_chars:
  assumes "link_url url"
  shows "CHR ''<'' \<notin> set url \<and> CHR ''>'' \<notin> set url \<and> CHR ''|'' \<notin> set url"
proof -
  from assms obtain scheme body where u: "url = scheme @ body"
    "scheme = ''http://'' \<or> scheme = ''https://''" "body \<noteq> []"
    "list_all (\<lambda>c. c \<notin> set ''<>|'') body"
    by (rule link_urlD)
  from u(2) have "CHR ''<'' \<notin> set scheme \<and> CHR ''>'' \<notin> set scheme \<and> CHR ''|'' \<notin> set scheme"
    by (elim disjE) simp_all
  moreover from u(4) have "CHR ''<'' \<notin> set body \<and> CHR ''>'' \<notin> set body \<and> CHR ''|'' \<notin> set body"
    by (auto simp: list_all_iff)
  ultimately show ?thesis using u(1) by simp
qed

lemma rmatch_http_scheme_link:
  assumes "scheme = ''http://'' \<or> scheme = ''https://''"
  shows "rmatch no_flags http_scheme (scheme @ s) = [s]"
  using assms
proof
  assume "scheme = ''http://''"
  then show ?thesis by (simp only: rmatch_http_scheme_http)
next
  assume "scheme = ''https://''"
  then show ?thesis by (simp only: rmatch_http_scheme_https)
qed

text \<open>The group of a wrapper pattern takes the whole URL first.\<close>

lemma wrapped_url_head:
  assumes "link_url url"
    and ok: "\<And>c. c \<notin> set ''<>|'' \<Longrightarrow> atom_ok no_flags a c"
    and stop: "\<not> atom_ok no_flags a d"
  shows "\<exists>rest. rmatch no_flags (seqs [http_scheme, Plus a]) (url @ d # t) = (d # t) # rest"
proof -
  from assms(1) obtain scheme body where u: "url = scheme @ body"
    "scheme = ''http://'' \<or> scheme = ''https://''" "body \<noteq> []"
    "list_all (\<lambda>c. c \<notin> set ''<>|'') body"
    by (rule link_urlD)
  from u(4) ok have "list_all (atom_ok no_flags a) body" by (simp add: list_all_iff)
  with u(3) stop obtain rest where 1: "rmatch no_flags (Plus a) (body @ d # t) = (d # t) # rest"
    using rmatch_Plus_head [of body no_flags a "d # t"] by auto
  have "rmatch no_flags http_scheme (scheme @ (body @ d # t)) = [body @ d # t]"
    using u(2) by (rule rmatch_http_scheme_link)
  with u(1) have 2: "rmatch no_flags http_scheme (url @ d # t) = [body @ d # t]" by simp
  have "seqs [http_scheme, Plus a] = Seq http_scheme (Plus a)" by simp
  with rmatch_Seq_head [OF 2 1] show ?thesis by metis
qed

lemma append_eq_before_mark:
  assumes "a @ r = u @ c # s" and "c \<notin> set a"
  shows "\<exists>k. r = k @ c # s \<and> u = a @ k"
proof -
  from assms(1) consider w where "a = u @ w" "w @ r = c # s" | w where "a @ w = u" "r = w @ c # s"
    by (auto simp: append_eq_append_conv2)
  then show ?thesis
  proof cases
    case 1
    show ?thesis
    proof (cases w)
      case Nil
      with 1 show ?thesis by simp
    next
      case (Cons x w')
      with 1 assms(2) show ?thesis by auto
    qed
  next
    case 2
    then show ?thesis by blast
  qed
qed

lemma labelled_ok:
  "atom_ok no_flags (NSet [Ch CHR ''|'', Ch CHR ''>'']) c \<longleftrightarrow> c \<noteq> CHR ''|'' \<and> c \<noteq> CHR ''>''"
  by (auto simp: no_flags_def)

lemma plain_ok: "atom_ok no_flags (NSet [Ch CHR ''>'']) c \<longleftrightarrow> c \<noteq> CHR ''>''"
  by (auto simp: no_flags_def)

lemma labelled_ok_url: "c \<notin> set ''<>|'' \<Longrightarrow> atom_ok no_flags (NSet [Ch CHR ''|'', Ch CHR ''>'']) c"
  by (simp add: labelled_ok del: atom_ok.simps)

lemma labelled_stop: "\<not> atom_ok no_flags (NSet [Ch CHR ''|'', Ch CHR ''>'']) CHR ''|''"
  by (simp add: labelled_ok del: atom_ok.simps)

lemma plain_ok_url: "c \<notin> set ''<>|'' \<Longrightarrow> atom_ok no_flags (NSet [Ch CHR ''>'']) c"
  by (simp add: plain_ok del: atom_ok.simps)

lemma plain_stop: "\<not> atom_ok no_flags (NSet [Ch CHR ''>'']) CHR ''>''"
  by (simp add: plain_ok del: atom_ok.simps)

lemma label_tail_head:
  assumes "label \<noteq> []" and "CHR ''>'' \<notin> set label"
  shows "\<exists>rest. rmatch no_flags (seqs [str ''|'', Plus (NSet [Ch CHR ''>'']), str ''>''])
                  (CHR ''|'' # label @ CHR ''>'' # s) = s # rest"
proof -
  have 1: "rmatch no_flags (str ''|'') (CHR ''|'' # label @ CHR ''>'' # s) = [label @ CHR ''>'' # s]"
    using rmatch_str_prefix [of "''|''" "label @ CHR ''>'' # s"] by simp
  from assms(2) have "list_all (atom_ok no_flags (NSet [Ch CHR ''>''])) label"
    by (auto simp: list_all_iff plain_ok simp del: atom_ok.simps)
  with assms(1) plain_stop obtain r where
    2: "rmatch no_flags (Plus (NSet [Ch CHR ''>''])) (label @ CHR ''>'' # s) = (CHR ''>'' # s) # r"
    using rmatch_Plus_head [of label no_flags "NSet [Ch CHR ''>'']" "CHR ''>'' # s"]
    by (auto simp del: atom_ok.simps rmatch.simps)
  have 3: "rmatch no_flags (str ''>'') (CHR ''>'' # s) = [s]"
    using rmatch_str_prefix [of "''>''" s] by simp
  from rmatch_Seq_head [OF 2 3] obtain r' where
    "rmatch no_flags (Seq (Plus (NSet [Ch CHR ''>''])) (str ''>'')) (label @ CHR ''>'' # s) = s # r'"
    by blast
  from rmatch_Seq_head [OF 1 this] show ?thesis by simp
qed

lemma gsub_labelled_link:
  assumes "link_url url" and "label \<noteq> []" and "CHR ''>'' \<notin> set label"
  shows "gsub no_flags (str ''<'') (seqs [http_scheme, Plus (NSet [Ch CHR ''|'', Ch CHR ''>''])])
           (seqs [str ''|'', Plus (NSet [Ch CHR ''>'']), str ''>''])
           (CHR ''<'' # url @ CHR ''|'' # label @ CHR ''>'' # s) =
         url @ gsub no_flags (str ''<'') (seqs [http_scheme, Plus (NSet [Ch CHR ''|'', Ch CHR ''>''])])
                 (seqs [str ''|'', Plus (NSet [Ch CHR ''>'']), str ''>'']) s"
proof -
  let ?g = "seqs [http_scheme, Plus (NSet [Ch CHR ''|'', Ch CHR ''>''])]"
  let ?post = "seqs [str ''|'', Plus (NSet [Ch CHR ''>'']), str ''>'']"
  let ?X = "url @ CHR ''|'' # label @ CHR ''>'' # s"
  have 1: "rmatch no_flags (str ''<'') (CHR ''<'' # ?X) = [?X]"
    using rmatch_str_prefix [of "''<''" ?X] by simp
  obtain r where 2: "rmatch no_flags ?g ?X = (CHR ''|'' # label @ CHR ''>'' # s) # r"
    using wrapped_url_head [OF assms(1) labelled_ok_url labelled_stop, of "label @ CHR ''>'' # s"]
    by blast
  obtain r' where 3: "rmatch no_flags ?post (CHR ''|'' # label @ CHR ''>'' # s) = s # r'"
    using label_tail_head [OF assms(2,3)] by blast
  from gmatch_head [OF 1 2 3] obtain rest where
    "gmatch no_flags (str ''<'') ?g ?post (CHR ''<'' # ?X) = (url, s) # rest"
    by auto
  then have "gsub no_flags (str ''<'') ?g ?post (CHR ''<'' # ?X) =
             url @ gsub no_flags (str ''<'') ?g ?post s"
    by (rule gsub_match) simp
  then show ?thesis .
qed

lemma gsub_plain_link:
  assumes "link_url url"
  shows "gsub no_flags (str ''<'') (seqs [http_scheme, Plus (NSet [Ch CHR ''>''])]) (str ''>'')
           (CHR ''<'' # url @ CHR ''>'' # s) =
         url @ gsub no_flags (str ''<'') (seqs [http_scheme, Plus (NSet [Ch CHR ''>''])]) (str ''>'') s"
proof -
  let ?g = "seqs [http_scheme, Plus (NSet [Ch CHR ''>''])]"
  let ?X = "url @ CHR ''>'' # s"
  have 1: "rmatch no_flags (str ''<'') (CHR ''<'' # ?X) = [?X]"
    using rmatch_str_prefix [of "''<''" ?X] by simp
  obtain r where 2: "rmatch no_flags ?g ?X = (CHR ''>'' # s) # r"
    using wrapped_url_head [OF assms(1) plain_ok_url plain_stop, of s]
    by blast
  have 3: "rmatch no_flags (str ''>'') (CHR ''>'' # s) = s # []"
    using rmatch_str_prefix [of "''>''" s] by simp
  from gmatch_head [OF 1 2 3] obtain rest where
    "gmatch no_flags (str ''<'') ?g (str ''>'') (CHR ''<'' # ?X) = (url, s) # rest"
    by auto
  then have "gsub no_flags (str ''<'') ?g (str ''>'') (CHR ''<'' # ?X) =
             url @ gsub no_flags (str ''<'') ?g (str ''>'') s"
    by (rule gsub_match) simp
  then show ?thesis .
qed

text \<open>A wrapper without a label is left alone by the pattern for labelled wrappers.\<close>

lemma labelled_group_rest:
  assumes "r \<in> set (rmatch no_flags (seqs [http_scheme, Plus (NSet [Ch CHR ''|'', Ch CHR ''>''])]) x)"
  shows "\<exists>a. x = a @ r \<and> CHR ''>'' \<notin> set a"
proof -
  from assms obtain y where
    y: "x = ''http://'' @ y \<or> x = ''https://'' @ y"
    and r: "r \<in> set (rmatch no_flags (Plus (NSet [Ch CHR ''|'', Ch CHR ''>''])) y)"
    unfolding seqs.simps rmatch_Seq_iff Bex_def rmatch_http_scheme by blast
  from r obtain q where q: "y = q @ r"
    "list_all (atom_ok no_flags (NSet [Ch CHR ''|'', Ch CHR ''>''])) q"
    using rmatch_Plus by blast
  from q(2) have "CHR ''>'' \<notin> set q"
    by (auto simp: list_all_iff labelled_ok simp del: atom_ok.simps)
  with y q(1) have "x = (''http://'' @ q) @ r \<and> CHR ''>'' \<notin> set (''http://'' @ q) \<or>
                   x = (''https://'' @ q) @ r \<and> CHR ''>'' \<notin> set (''https://'' @ q)"
    by auto
  then show ?thesis by blast
qed

lemma label_tail_mismatch:
  assumes "c \<noteq> CHR ''|''"
  shows "rmatch no_flags (seqs [str ''|'', Plus (NSet [Ch CHR ''>'']), str ''>'']) (c # s) = []"
  using rmatch_str_mismatch [OF assms, of "[]" s] by simp

lemma gmatch_labelled_on_plain_link:
  assumes "link_url url"
  shows "gmatch no_flags (str ''<'') (seqs [http_scheme, Plus (NSet [Ch CHR ''|'', Ch CHR ''>''])])
           (seqs [str ''|'', Plus (NSet [Ch CHR ''>'']), str ''>''])
           (CHR ''<'' # url @ CHR ''>'' # s) = []"
proof -
  let ?g = "seqs [http_scheme, Plus (NSet [Ch CHR ''|'', Ch CHR ''>''])]"
  let ?post = "seqs [str ''|'', Plus (NSet [Ch CHR ''>'']), str ''>'']"
  let ?X = "url @ CHR ''>'' # s"
  from link_url_chars [OF assms] have bar: "CHR ''|'' \<notin> set url" by simp
  have 1: "rmatch no_flags (str ''<'') (CHR ''<'' # ?X) = [?X]"
    using rmatch_str_prefix [of "''<''" ?X] by simp
  have 2: "rmatch no_flags ?post r = []" if "r \<in> set (rmatch no_flags ?g ?X)" for r
  proof -
    from labelled_group_rest [OF that] obtain a where a: "?X = a @ r" "CHR ''>'' \<notin> set a"
      by blast
    from append_eq_before_mark [OF a(1) [symmetric] a(2)] obtain k where
      k: "r = k @ CHR ''>'' # s" "url = a @ k" by blast
    show ?thesis
    proof (cases k)
      case Nil
      with k(1) show ?thesis using label_tail_mismatch [of "CHR ''>''" s] by simp
    next
      case (Cons c k')
      with k(2) bar have "c \<noteq> CHR ''|''" by auto
      with Cons k(1) show ?thesis using label_tail_mismatch [of c "k' @ CHR ''>'' # s"] by simp
    qed
  qed
  have "concat (map (\<lambda>r2. map (\<lambda>r3. (take (length ?X - length r2) ?X, r3))
                         (rmatch no_flags ?post r2)) (rmatch no_flags ?g ?X)) = []"
    using 2 by (simp del: rmatch.simps seqs.simps)
  with 1 show ?thesis by (simp add: gmatch_def del: rmatch.simps seqs.simps)
qed

lemma gsub_labelled_on_plain_link:
  assumes "link_url url"
  shows "gsub no_flags (str ''<'') (seqs [http_scheme, Plus (NSet [Ch CHR ''|'', Ch CHR ''>''])])
           (seqs [str ''|'', Plus (NSet [Ch CHR ''>'']), str ''>''])
           (CHR ''<'' # url @ CHR ''>'' # s) =
         CHR ''<'' # url @ CHR ''>'' #
           gsub no_flags (str ''<'') (seqs [http_scheme, Plus (NSet [Ch CHR ''|'', Ch CHR ''>''])])
             (seqs [str ''|'', Plus (NSet [Ch CHR ''>'']), str ''>'']) s"
proof -
  let ?g = "seqs [http_scheme, Plus (NSet [Ch CHR ''|'', Ch CHR ''>''])]"
  let ?post = "seqs [str ''|'', Plus (NSet [Ch CHR ''>'']), str ''>'']"
  from link_url_chars [OF assms] have lt: "CHR ''<'' \<notin> set url" by simp
  have "gsub no_flags (str ''<'') ?g ?post (CHR ''<'' # url @ CHR ''>'' # s) =
        CHR ''<'' # gsub no_flags (str ''<'') ?g ?post (url @ CHR ''>'' # s)"
    using gmatch_labelled_on_plain_link [OF assms] by (rule gsub_no_match)
  also have "\<dots> = CHR ''<'' # url @ gsub no_flags (str ''<'') ?g ?post (CHR ''>'' # s)"
    using gsub_plain [OF lt] by simp
  also have "\<dots> = CHR ''<'' # url @ CHR ''>'' # gsub no_flags (str ''<'') ?g ?post s"
    using gsub_skip [of "CHR ''>''"] by simp
  finally show ?thesis .
qed

lemma clean_slack_text_no_wrapper:
  "CHR ''<'' \<notin> set t \<Longrightarrow> clean_slack_text t = t"
  by (simp add: clean_slack_text_def labelled_wrapper_def plain_wrapper_def gsub_no_wrapper)

lemma clean_slack_text_plain:
  assumes "CHR ''<'' \<notin> set p"
  shows "clean_slack_text (p @ rest) = p @ clean_slack_text rest"
  using assms
  by (simp add: clean_slack_text_def labelled_wrapper_def plain_wrapper_def gsub_plain)

lemma clean_slack_text_segment:
  assumes "well_formed seg"
  shows "clean_slack_text (render seg @ rest) = bare seg @ clean_slack_text rest"
proof (cases seg)
  case (Plain p)
  with assms show ?thesis by (simp add: clean_slack_text_plain)
next
  case (Link url lbl)
  show ?thesis
  proof (cases lbl)
    case None
    with Link assms have u: "link_url url" by simp
    from None Link show ?thesis
      using gsub_labelled_on_plain_link [OF u] gsub_plain_link [OF u]
      by (simp add: clean_slack_text_def labelled_wrapper_def plain_wrapper_def
          del: seqs.simps)
  next
    case (Some label)
    with Link assms have u: "link_url url" "label \<noteq> []" "CHR ''>'' \<notin> set label" by simp_all
    from link_url_chars [OF u(1)] have lt: "CHR ''<'' \<notin> set url" by simp
    from Some Link show ?thesis
      using gsub_labelled_link [OF u] gsub_plain [OF lt]
      by (simp add: clean_slack_text_def labelled_wrapper_def plain_wrapper_def
          del: seqs.simps)
  qed
qed

lemma clean_slack_text_segments:
  "list_all well_formed segs \<Longrightarrow>
   clean_slack_text (concat (map render segs)) = concat (map bare segs)"
proof (induction segs)
  case Nil
  then show ?case by (simp add: clean_slack_text_no_wrapper)
next
  case (Cons seg segs)
  then show ?case by (simp add: clean_slack_text_segment)
qed

lemma bare_no_wrapper: "well_formed seg \<Longrightarrow> CHR ''<'' \<notin> set (bare seg)"
proof (cases seg)
  case (Plain p)
  then show "well_formed seg \<Longrightarrow> ?thesis" by simp
next
  case (Link url lbl)
  assume "well_formed seg"
  with Link have "link_url url" by (cases lbl) simp_all
  with Link show ?thesis using link_url_chars by simp
qed

section \<open>The claims\<close>

subsection \<open>C1: many old URLs, one new URL\<close>

text \<open>
  C1 says that a message with N URLs labelled as old and one URL labelled as new yields N
  requests that share the new URL, and names the scenario of four URLs after
  \<^verbatim>\<open>Old ones:\<close> and one after \<^verbatim>\<open>New:\<close>. The repository's test for that scenario
  expects four requests. On the text of that test the parser returns no request at all:
  the label patterns match inside words and URLs, so every line with a URL contains the
  old keyword \<^verbatim>\<open>de\<close> (the \<^verbatim>\<open>New:\<close> line in \<^verbatim>\<open>carrieres-des-lumieres\<close>) and all five
  URLs are collected as old; the old section of Strategy B ends at the first \<^verbatim>\<open>a\<close>, the
  second letter of the host of the first URL; and Strategy C refuses five URLs.
\<close>

theorem multiple_old_urls_test_yields_nothing:
  "parse_message netloc channel
     [''text'' \<mapsto> multiple_old_urls_text, ''ts'' \<mapsto> ''1234567890.123458'',
      ''user'' \<mapsto> ''U12347''] = Inr []"
proof -
  have "CHR ''<'' \<notin> set multiple_old_urls_text" by code_simp
  then have clean: "clean_slack_text multiple_old_urls_text = multiple_old_urls_text"
    by (rule clean_slack_text_no_wrapper)
  have a: "parse_labeled_format multiple_old_urls_text = Inr []" by code_simp
  have b: "parse_multi_old_urls multiple_old_urls_text = Inr []" by code_simp
  have "length (findall no_flags URL_PATTERN multiple_old_urls_text) = 5" by code_simp
  then have c: "parse_sequential_urls netloc multiple_old_urls_text = Inr []"
    by (simp add: parse_sequential_urls_def)
  from clean a b c show ?thesis
    by (simp add: parse_message_def dict_get_def extract_pairs_def make_requests_def)
qed

subsection \<open>C2: fewer than two URLs\<close>

text \<open>
  C2 says that a text with no URL token or with one yields no request. Strategies A and C
  begin with that check; Strategy B has none. On the text below, whose only URL token is
  \<^verbatim>\<open>https://x.com/a,https://x.com/b\<close>, Strategy A returns nothing, and Strategy B cuts
  its old section at the \<^verbatim>\<open>a\<close> inside the token and pairs the two pieces.
\<close>

theorem single_token_split_by_strategy_b:
  "findall no_flags URL_PATTERN ''Old: https://x.com/a,https://x.com/b'' =
     [''https://x.com/a,https://x.com/b''] \<and>
   parse_labeled_format ''Old: https://x.com/a,https://x.com/b'' = Inr [] \<and>
   parse_multi_old_urls ''Old: https://x.com/a,https://x.com/b'' =
     Inr [(''https://x.com/'', ''https://x.com/b'')] \<and>
   parse_message token_netloc ''C0'' [''text'' \<mapsto> ''Old: https://x.com/a,https://x.com/b''] =
     Inr [\<lparr>old_url = ''https://x.com/'', new_url = ''https://x.com/b'', message_ts = [],
           channel_id = ''C0'', requester = ''unknown'', reason = None\<rparr>]"
  by code_simp

subsection \<open>C3: the URLs of a request\<close>

text \<open>
  C3 as stated fails in its last part: nothing compares the two URLs, and a message that
  gives the same URL as old and as new yields a request with \<open>new_url = old_url\<close>.
\<close>

theorem same_url_twice_counterexample:
  "parse_message token_netloc ''C0''
     [''text'' \<mapsto> join_lines [''Old: https://x.com/p'', ''New: https://x.com/p'']] =
   Inr [\<lparr>old_url = ''https://x.com/p'', new_url = ''https://x.com/p'', message_ts = [],
         channel_id = ''C0'', requester = ''unknown'', reason = None\<rparr>]"
  by code_simp

text \<open>
  C3, amended: for every message and every request that \<open>parse_message\<close> returns,
  \<open>old_url\<close> and \<open>new_url\<close> are non-empty and satisfy the URL-syntax predicate.
\<close>

theorem request_urls_well_formed:
  assumes "parse_message netloc channel message = Inr requests" and "r \<in> set requests"
  shows "old_url r \<noteq> [] \<and> new_url r \<noteq> [] \<and> url_syntax (old_url r) \<and> url_syntax (new_url r)"
proof -
  from assms obtain ps where ps: "extract_pairs netloc
      (clean_slack_text (dict_get message ''text'' [])) = Inr ps"
    and r: "r \<in> set (make_requests (dict_get message ''ts'' [])
      (dict_get message ''channel'' channel) (dict_get message ''user'' ''unknown'')
      (extract_reason (clean_slack_text (dict_get message ''text'' []))) ps)"
    by (auto simp: parse_message_def Let_def split: sum.splits)
  from r obtain a b where ab: "(a, b) \<in> set ps" "old_url r = a" "new_url r = b"
    by (auto simp: make_requests_def)
  from extract_pairs_urls [OF ps ab(1)] ab have "url_syntax (old_url r)" "url_syntax (new_url r)"
    by simp_all
  moreover have "url_syntax u \<Longrightarrow> u \<noteq> []" for u
    by (auto simp: url_syntax_def)
  ultimately show ?thesis by blast
qed

theorem request_urls_well_formed_witness:
  "parse_message token_netloc ''C0''
     [''text'' \<mapsto> join_lines [''Old: https://x.com/p'', ''New: https://x.com/q'']] =
   Inr [\<lparr>old_url = ''https://x.com/p'', new_url = ''https://x.com/q'', message_ts = [],
         channel_id = ''C0'', requester = ''unknown'', reason = None\<rparr>] \<and>
   url_syntax ''https://x.com/p'' \<and> url_syntax ''https://x.com/q''"
proof -
  let ?r = "\<lparr>old_url = ''https://x.com/p'', new_url = ''https://x.com/q'', message_ts = [],
         channel_id = ''C0'', requester = ''unknown'', reason = None\<rparr>"
  have h: "parse_message token_netloc ''C0''
     [''text'' \<mapsto> join_lines [''Old: https://x.com/p'', ''New: https://x.com/q'']] = Inr [?r]"
    by code_simp
  have "?r \<in> set [?r]" by simp
  from request_urls_well_formed [OF h this] h show ?thesis by simp
qed

subsection \<open>C4: the text normalizer\<close>

text \<open>
  C4 as stated fails: on a wrapper inside another pair of angle brackets one pass removes
  one layer and a second pass removes the next, so the normalizer is not idempotent.
\<close>

theorem nested_wrapper_counterexample:
  "clean_slack_text ''<<https://a.com>>'' = ''<https://a.com>'' \<and>
   clean_slack_text (clean_slack_text ''<<https://a.com>>'') = ''https://a.com''"
  by code_simp

text \<open>
  C4, amended: on every text made of stretches without \<^verbatim>\<open><\<close> and of well-formed
  wrappers \<^verbatim>\<open><url|label>\<close> or \<^verbatim>\<open><url>\<close>, the normalizer replaces every wrapper by its
  bare URL and leaves all other characters unchanged, and applying it twice yields the
  same result as applying it once.
\<close>

theorem normalizer_on_well_formed_markup:
  assumes "list_all well_formed segs"
  shows "clean_slack_text (concat (map render segs)) = concat (map bare segs) \<and>
         clean_slack_text (clean_slack_text (concat (map render segs))) =
           clean_slack_text (concat (map render segs))"
proof -
  from assms have "CHR ''<'' \<notin> set (concat (map bare segs))"
    by (auto simp: list_all_iff dest: bare_no_wrapper)
  with clean_slack_text_segments [OF assms] show ?thesis
    by (simp add: clean_slack_text_no_wrapper)
qed

theorem normalizer_on_well_formed_markup_witness:
  "clean_slack_text ''see <https://x.com/a|label> and <https://x.com/b>.'' =
     ''see https://x.com/a and https://x.com/b.'' \<and>
   clean_slack_text (clean_slack_text ''see <https://x.com/a|label> and <https://x.com/b>.'') =
     clean_slack_text ''see <https://x.com/a|label> and <https://x.com/b>.''"
proof -
  let ?segs = "[Plain ''see '', Link ''https://x.com/a'' (Some ''label''), Plain '' and '',
                Link ''https://x.com/b'' None, Plain ''.'']"
  have 1: "list_all well_formed ?segs" by code_simp
  have 2: "concat (map render ?segs) = ''see <https://x.com/a|label> and <https://x.com/b>.''"
    by simp
  have 3: "concat (map bare ?segs) = ''see https://x.com/a and https://x.com/b.''"
    by simp
  from normalizer_on_well_formed_markup [OF 1] show ?thesis
    unfolding 2 3 .
qed

subsection \<open>C5: pairing the two accumulators\<close>

text \<open>
  C5: in Strategy A, once the text has passed the checks (two URLs, an old label, a new
  label) and the line scan has filled the accumulators \<open>olds\<close> and \<open>news\<close>: if \<open>news\<close>
  holds exactly one URL, every old URL is paired with it; else if both hold the same number
  of URLs, they are paired by position, in input order; else they are paired by position
  and the old URLs beyond the number of new URLs are dropped; and if either accumulator is
  empty, the strategy yields no pair.
\<close>

theorem labeled_pairing_policy:
  assumes "2 \<le> length (findall no_flags URL_PATTERN t)"
    and "search IGNORECASE old_pattern t \<noteq> None"
    and "search IGNORECASE new_pattern t \<noteq> None"
    and "olds = old_urls (scan_lines t)" and "news = new_urls (scan_lines t)"
  shows "(olds \<noteq> [] \<and> news = [new] \<longrightarrow>
            parse_labeled_format t = Inr (map (\<lambda>old. (old, new)) olds)) \<and>
         (olds \<noteq> [] \<and> length news \<noteq> 1 \<and> length olds = length news \<longrightarrow>
            parse_labeled_format t = Inr (zip olds news)) \<and>
         (olds \<noteq> [] \<and> news \<noteq> [] \<and> length news \<noteq> 1 \<and> length olds \<noteq> length news \<longrightarrow>
            parse_labeled_format t = Inr (zip (take (length news) olds) news)) \<and>
         (olds = [] \<or> news = [] \<longrightarrow> parse_labeled_format t = Inr [])"
proof -
  from assms have "parse_labeled_format t = create_pairs olds news"
    by (simp add: parse_labeled_format_def Let_def del: not_None_eq)
  then show ?thesis
    by (auto simp: create_pairs_eq zip_take_left)
qed

theorem labeled_pairing_policy_witness:
  "parse_labeled_format
     (join_lines [''old: https://x.io/p1 https://x.io/p2 https://x.io/p3'',
                  ''new: https://x.io/q1 https://x.io/q2'']) =
   Inr [(''https://x.io/p1'', ''https://x.io/q1''), (''https://x.io/p2'', ''https://x.io/q2'')]"
proof -
  let ?t = "join_lines [''old: https://x.io/p1 https://x.io/p2 https://x.io/p3'',
                        ''new: https://x.io/q1 https://x.io/q2'']"
  let ?olds = "[''https://x.io/p1'', ''https://x.io/p2'', ''https://x.io/p3'']"
  let ?news = "[''https://x.io/q1'', ''https://x.io/q2'']"
  have 1: "2 \<le> length (findall no_flags URL_PATTERN ?t)" by code_simp
  have 2: "search IGNORECASE old_pattern ?t \<noteq> None" by code_simp
  have 3: "search IGNORECASE new_pattern ?t \<noteq> None" by code_simp
  have 4: "?olds = old_urls (scan_lines ?t)" by code_simp
  have 5: "?news = new_urls (scan_lines ?t)" by code_simp
  from labeled_pairing_policy [OF 1 2 3 4 5] show ?thesis by simp
qed

subsection \<open>C6: the order of the strategies\<close>

text \<open>
  C6 as stated fails in its second part. The text below satisfies the preconditions of
  Strategy A (two URLs, an old label and a new label, both inside the URLs) and of
  Strategy C (exactly two URLs); Strategy A collects both URLs as old and yields no pair,
  so the cascade goes on and the result is the pair of Strategy C.
\<close>

theorem labels_present_but_fallback_wins_counterexample:
  "length (findall no_flags URL_PATTERN ''https://e.com/old https://e.com/new'') = 2 \<and>
   search IGNORECASE old_pattern ''https://e.com/old https://e.com/new'' \<noteq> None \<and>
   search IGNORECASE new_pattern ''https://e.com/old https://e.com/new'' \<noteq> None \<and>
   parse_labeled_format ''https://e.com/old https://e.com/new'' = Inr [] \<and>
   parse_sequential_urls token_netloc ''https://e.com/old https://e.com/new'' =
     Inr [(''https://e.com/old'', ''https://e.com/new'')] \<and>
   parse_message token_netloc ''C0'' [''text'' \<mapsto> ''https://e.com/old https://e.com/new''] =
     Inr [\<lparr>old_url = ''https://e.com/old'', new_url = ''https://e.com/new'', message_ts = [],
           channel_id = ''C0'', requester = ''unknown'', reason = None\<rparr>]"
  by code_simp

text \<open>
  C6, amended: \<open>parse_message\<close> tries the strategies in the order A, B, C and returns the
  requests built from the pairs of the first strategy that yields at least one pair (those
  of Strategy C, which may be none, when A and B yield nothing); in particular, whenever
  Strategy A yields at least one pair the result is Strategy A's output.
\<close>

theorem first_productive_strategy_wins:
  assumes "t = clean_slack_text (dict_get message ''text'' [])"
    and "mk = make_requests (dict_get message ''ts'' []) (dict_get message ''channel'' channel)
                (dict_get message ''user'' ''unknown'') rsn"
    and "rsn = extract_reason t"
  shows "(parse_labeled_format t = Inr a \<and> a \<noteq> [] \<longrightarrow>
            parse_message netloc channel message = Inr (mk a)) \<and>
         (parse_labeled_format t = Inr [] \<and> parse_multi_old_urls t = Inr b \<and> b \<noteq> [] \<longrightarrow>
            parse_message netloc channel message = Inr (mk b)) \<and>
         (parse_labeled_format t = Inr [] \<and> parse_multi_old_urls t = Inr [] \<and>
          parse_sequential_urls netloc t = Inr c \<longrightarrow>
            parse_message netloc channel message = Inr (mk c))"
  using assms by (simp add: parse_message_def extract_pairs_def Let_def)

theorem first_productive_strategy_wins_witness:
  "parse_message token_netloc ''C0''
     [''text'' \<mapsto> join_lines [''old: https://e.com/a'', ''new: https://e.com/b'']] =
   Inr (make_requests [] ''C0'' ''unknown'' None [(''https://e.com/a'', ''https://e.com/b'')])"
proof -
  let ?m = "[''text'' \<mapsto> join_lines [''old: https://e.com/a'', ''new: https://e.com/b'']]"
  let ?t = "join_lines [''old: https://e.com/a'', ''new: https://e.com/b'']"
  have 1: "?t = clean_slack_text (dict_get ?m ''text'' [])" by code_simp
  have 2: "make_requests [] ''C0'' ''unknown'' None =
           make_requests (dict_get ?m ''ts'' []) (dict_get ?m ''channel'' ''C0'')
             (dict_get ?m ''user'' ''unknown'') None"
    by (simp add: dict_get_def)
  have r: "None = extract_reason ?t" by code_simp
  have 3: "parse_labeled_format ?t = Inr [(''https://e.com/a'', ''https://e.com/b'')]"
    by code_simp
  from first_productive_strategy_wins [OF 1 2 r, of "[(''https://e.com/a'', ''https://e.com/b'')]"
      token_netloc] 3
  show ?thesis by simp
qed

subsection \<open>C7: the sequential fallback\<close>

text \<open>
  C7: when Strategies A and B both yield nothing: if the text holds exactly two URL tokens
  and they share the same host, the result is exactly one request, with the first URL as
  old and the second as new; if their hosts differ, or the text holds three or more URL
  tokens, the result is empty. Two URLs share a host when \<^verbatim>\<open>urlparse\<close> returns the same
  network location for both (\<open>same_domain\<close>).
\<close>

theorem sequential_fallback:
  assumes "t = clean_slack_text (dict_get message ''text'' [])"
    and "mk = make_requests (dict_get message ''ts'' []) (dict_get message ''channel'' channel)
                (dict_get message ''user'' ''unknown'') rsn"
    and "rsn = extract_reason t"
    and "parse_labeled_format t = Inr []" and "parse_multi_old_urls t = Inr []"
  shows "(findall no_flags URL_PATTERN t = [url1, url2] \<and> same_domain netloc url1 url2 \<longrightarrow>
            parse_message netloc channel message = Inr (mk [(url1, url2)])) \<and>
         (findall no_flags URL_PATTERN t = [url1, url2] \<and> \<not> same_domain netloc url1 url2 \<longrightarrow>
            parse_message netloc channel message = Inr []) \<and>
         (3 \<le> length (findall no_flags URL_PATTERN t) \<longrightarrow>
            parse_message netloc channel message = Inr [])"
  using assms
  by (simp add: parse_message_def extract_pairs_def parse_sequential_urls_def Let_def
      index_def make_requests_def)

theorem sequential_fallback_witness:
  "parse_message token_netloc ''C0'' [''text'' \<mapsto> ''https://x.com/p https://x.com/q''] =
     Inr (make_requests [] ''C0'' ''unknown'' None [(''https://x.com/p'', ''https://x.com/q'')]) \<and>
   parse_message token_netloc ''C0'' [''text'' \<mapsto> ''https://x.com/p https://y.com/q''] = Inr []"
proof -
  let ?m = "[''text'' \<mapsto> ''https://x.com/p https://x.com/q'']"
  let ?t = "''https://x.com/p https://x.com/q''"
  let ?m' = "[''text'' \<mapsto> ''https://x.com/p https://y.com/q'']"
  let ?t' = "''https://x.com/p https://y.com/q''"
  have 1: "?t = clean_slack_text (dict_get ?m ''text'' [])" by code_simp
  have 2: "make_requests [] ''C0'' ''unknown'' None =
           make_requests (dict_get ?m ''ts'' []) (dict_get ?m ''channel'' ''C0'')
             (dict_get ?m ''user'' ''unknown'') None"
    by (simp add: dict_get_def)
  have r: "None = extract_reason ?t" by code_simp
  have 3: "parse_labeled_format ?t = Inr []" by code_simp
  have 4: "parse_multi_old_urls ?t = Inr []" by code_simp
  have 5: "findall no_flags URL_PATTERN ?t = [''https://x.com/p'', ''https://x.com/q'']"
    by code_simp
  have 6: "same_domain token_netloc ''https://x.com/p'' ''https://x.com/q''" by code_simp
  have b1: "?t' = clean_slack_text (dict_get ?m' ''text'' [])" by code_simp
  have b2: "make_requests [] ''C0'' ''unknown'' None =
           make_requests (dict_get ?m' ''ts'' []) (dict_get ?m' ''channel'' ''C0'')
             (dict_get ?m' ''user'' ''unknown'') None"
    by (simp add: dict_get_def)
  have br: "None = extract_reason ?t'" by code_simp
  have b3: "parse_labeled_format ?t' = Inr []" by code_simp
  have b4: "parse_multi_old_urls ?t' = Inr []" by code_simp
  have b5: "findall no_flags URL_PATTERN ?t' = [''https://x.com/p'', ''https://y.com/q'']"
    by code_simp
  have b6: "\<not> same_domain token_netloc ''https://x.com/p'' ''https://y.com/q''" by code_simp
  from sequential_fallback [OF 1 2 r 3 4, of "''https://x.com/p''" "''https://x.com/q''" token_netloc]
    sequential_fallback [OF b1 b2 br b3 b4, of "''https://x.com/p''" "''https://y.com/q''" token_netloc]
    5 6 b5 b6
  show ?thesis by simp
qed

subsection \<open>C8: the reason\<close>

text \<open>
  C8 says that the reason extractor recognises the labels \<^verbatim>\<open>reason\<close>, \<^verbatim>\<open>razon\<close> with or
  without the accent, and \<^verbatim>\<open>motivo\<close>, and returns the rest of the label's line, trimmed.
  The character class that the source file has for the accented letter holds the two
  code points U+00C3 and U+00B3, not U+00F3: a line that starts with the accented label
  has no reason extracted, while the same line without the accent has. (The last line
  shows that the whitespace after the label may also run over the end of the line: the
  reason then comes from the next line.)
\<close>

theorem accented_reason_label_not_recognised:
  "extract_reason ''Reason: dead link, replaced'' = Some ''dead link, replaced'' \<and>
   extract_reason ''Razon: enlace roto'' = Some ''enlace roto'' \<and>
   extract_reason (''Raz'' @ [CHR 0xF3] @ ''n: enlace roto'') = None \<and>
   extract_reason (join_lines [''Reason:'', ''Thanks!'']) = Some ''Thanks!''"
  by code_simp

subsection \<open>C9: no exception\<close>

text \<open>
  C9: for every message (a dictionary with strings as values), \<open>parse_message\<close> raises no
  exception: it returns a list of requests, which is empty when nothing matches. Every
  list index in the three strategies is guarded by a length check, and \<open>same_domain\<close>
  turns an exception of \<^verbatim>\<open>urlparse\<close> into \<open>False\<close>.
\<close>

theorem parse_message_never_raises:
  "\<exists>requests. parse_message netloc channel message = Inr requests"
proof -
  obtain ps where
    "extract_pairs netloc (clean_slack_text (dict_get message ''text'' [])) = Inr ps"
    using extract_pairs_total by blast
  then show ?thesis by (simp add: parse_message_def Let_def)
qed

subsection \<open>C10: a line with both labels\<close>

text \<open>
  C10: in the line scan of Strategy A, a line that matches an old-label pattern and a
  new-label pattern sets the current section to OLD, and all URL tokens of that line are
  appended to the old URLs.
\<close>

theorem old_label_takes_precedence:
  assumes "strip raw_line \<noteq> []"
    and "search IGNORECASE old_pattern (strip raw_line) \<noteq> None"
    and "search IGNORECASE new_pattern (strip raw_line) \<noteq> None"
  shows "scan_line st raw_line =
           st\<lparr>current_type := Some Old,
              old_urls := old_urls st @ findall no_flags URL_PATTERN (strip raw_line)\<rparr>"
  using assms by (simp add: scan_line_def Let_def del: not_None_eq)

theorem old_label_takes_precedence_witness:
  "scan_line \<lparr>old_urls = [], new_urls = [''https://x.io/n''], current_type = Some New\<rparr>
     ''from https://x.io/a to https://x.io/b'' =
   \<lparr>old_urls = [''https://x.io/a'', ''https://x.io/b''], new_urls = [''https://x.io/n''],
    current_type = Some Old\<rparr>"
proof -
  let ?l = "''from https://x.io/a to https://x.io/b''"
  have 1: "strip ?l \<noteq> []" by code_simp
  have 2: "search IGNORECASE old_pattern (strip ?l) \<noteq> None" by code_simp
  have 3: "search IGNORECASE new_pattern (strip ?l) \<noteq> None" by code_simp
  have 4: "findall no_flags URL_PATTERN (strip ?l) = [''https://x.io/a'', ''https://x.io/b'']"
    by code_simp
  from old_label_takes_precedence [OF 1 2 3] 4 show ?thesis by simp
qed

end
